theory Spec2Isabelle
  imports Complex_Main "HOL-Library.Char_ord" "HOL-Library.List_Lexorder" "HOL-Library.Sublist"
begin

section \<open>Python values handled by the catalog generator\<close>

text \<open>
  The embedding follows \<^verbatim>\<open>tools/generate_instance_type_catalog.py\<close>. Exceptions are
  values: every function that can raise returns \<open>exn + 'a\<close>, with \<open>Inl\<close> the exception.
\<close>

datatype exn =
    BotoCoreError string
  | ClientError string
  | InvalidOperation
  | DecimalOverflow
  | OverflowError
  | ValueError
  | TypeError
  | AttributeError
  | OtherError string

text \<open>
  A Python \<open>float\<close> is an IEEE binary64 number. A finite one is \<open>Finite s m x\<close> with value
  \<open>(-1)^s * m * 2^x\<close>, kept in the canonical form \<open>m < 2^53\<close>, \<open>-1074 \<le> x \<le> 971\<close> and
  \<open>2^52 \<le> m\<close> unless \<open>x = -1074\<close>.
\<close>

datatype pyfloat = Finite bool nat int | Infinity bool | NaN bool

text \<open>
  A \<open>decimal.Decimal\<close>: sign, coefficient and exponent (value \<open>(-1)^s * c * 10^e\<close>),
  or one of the special values.
\<close>

datatype decimal = Dec bool nat int | DecInf bool | DecNaN bool | DecSNaN bool

text \<open>
  \<open>datetime.date\<close> and its subclass \<open>datetime.datetime\<close>. \<open>utcoffset\<close> is the value of
  \<open>utcoffset()\<close> in microseconds, \<open>None\<close> for a naive timestamp.
\<close>

record date =
  year :: nat
  month :: nat
  day :: nat

record datetime = date +
  hour :: nat
  minute :: nat
  second :: nat
  microsecond :: nat
  utcoffset :: "int option"

text \<open>
  The values a provider record is made of. A \<open>dict\<close> is the list of its items in
  insertion order; its keys are strings (\<open>dict[str, Any]\<close> in the source) and distinct.
\<close>

datatype pyval =
    VNone
  | VBool bool
  | VInt int
  | VFloat pyfloat
  | VStr string
  | VDict "(string \<times> pyval) list"
  | VList "pyval list"
  | VDatetime datetime
  | VDate date
  | VDecimal decimal

section \<open>Strings and number formatting\<close>

definition digit_char :: "nat \<Rightarrow> char" where
  "digit_char n = ''0123456789'' ! n"

fun dec_digits :: "nat \<Rightarrow> string" where
  "dec_digits n = (if n < 10 then [digit_char n] else dec_digits (n div 10) @ [digit_char (n mod 10)])"

declare dec_digits.simps [simp del]

text \<open>\<^verbatim>\<open>"%0wd" % n\<close> for a non-negative \<open>n\<close>: at least \<open>w\<close> digits, padded with zeros.\<close>

definition zero_pad :: "nat \<Rightarrow> nat \<Rightarrow> string" where
  "zero_pad w n = replicate (w - length (dec_digits n)) (CHR ''0'') @ dec_digits n"

text \<open>\<^verbatim>\<open>s.replace(old, new)\<close>: every occurrence, left to right, without overlap.\<close>

function replace :: "string \<Rightarrow> string \<Rightarrow> string \<Rightarrow> string" where
  "replace old new [] = (if old = [] then new else [])"
| "replace old new (c # cs) =
     (if old = [] then new @ c # replace old new cs
      else if prefix old (c # cs) then new @ replace old new (drop (length old) (c # cs))
      else c # replace old new cs)"
  by pat_completeness auto
termination
  by (relation "measure (\<lambda>(old, new, s). length s)") auto

section \<open>Decimal arithmetic in the default context\<close>

text \<open>
  The script never changes the decimal context, so \<open>value % 1\<close> runs in the default one:
  28 digits of precision, exponents in \<open>[-999999, 999999]\<close>, rounding half-even, the
  signals InvalidOperation, DivisionByZero and Overflow trapped (raised).
\<close>

definition prec :: nat where "prec = 28"
definition Emax :: int where "Emax = 999999"
definition Emin :: int where "Emin = - 999999"
definition Etiny :: int where "Etiny = Emin - int prec + 1"
definition Etop :: int where "Etop = Emax - int prec + 1"

fun ndigits :: "nat \<Rightarrow> nat" where
  "ndigits n = (if n < 10 then 1 else Suc (ndigits (n div 10)))"

declare ndigits.simps [simp del]

text \<open>\<open>Decimal._fix\<close>: round a result to the context's precision and exponent range.\<close>

definition dec_fix :: "decimal \<Rightarrow> exn + decimal" where
  "dec_fix d = (case d of
     Dec s c e \<Rightarrow>
       if c = 0 then Inr (Dec s 0 (min (max e Etiny) Emax))
       else
         let exp_min0 = int (ndigits c) + e - int prec in
         if exp_min0 > Etop then Inl DecimalOverflow
         else
           let exp_min = (if exp_min0 < Etiny then Etiny else exp_min0) in
           if e < exp_min then
             let digits0 = int (ndigits c) + e - exp_min;
                 c1 = (if digits0 < 0 then 1 else c);
                 e1 = (if digits0 < 0 then exp_min - 1 else e);
                 k = nat (exp_min - e1);
                 coeff0 = c1 div 10 ^ k;
                 rest = c1 mod 10 ^ k;
                 up = (2 * rest > 10 ^ k \<or> (2 * rest = 10 ^ k \<and> odd coeff0));
                 coeff1 = (if up then coeff0 + 1 else coeff0);
                 carry = (up \<and> ndigits coeff1 > prec);
                 coeff = (if carry then coeff1 div 10 else coeff1);
                 exp' = (if carry then exp_min + 1 else exp_min)
             in if exp' > Etop then Inl DecimalOverflow else Inr (Dec s coeff exp')
           else Inr d
   | _ \<Rightarrow> Inr d)"

text \<open>
  \<open>Decimal.__mod__\<close> with the integer 1 as divisor. A signalling NaN and an infinite
  dividend raise InvalidOperation; so does a dividend whose integer quotient does not fit
  the precision (DivisionImpossible, a subclass of InvalidOperation).
\<close>

definition dec_mod1 :: "decimal \<Rightarrow> exn + decimal" where
  "dec_mod1 d = (case d of
     DecSNaN s \<Rightarrow> Inl InvalidOperation
   | DecNaN s \<Rightarrow> Inr (DecNaN s)
   | DecInf s \<Rightarrow> Inl InvalidOperation
   | Dec s c e \<Rightarrow>
       let ideal_exp = min e 0;
           expdiff = e + int (ndigits c) - 1
       in if c = 0 \<or> expdiff \<le> - 2 then
            dec_fix (Dec s (c * 10 ^ nat (e - ideal_exp)) ideal_exp)
          else if expdiff \<le> int prec then
            let op1 = (if 0 \<le> e then c * 10 ^ nat e else c);
                op2 = (if 0 \<le> e then 1 else 10 ^ nat (- e));
                q = op1 div op2;
                r = op1 mod op2
            in if q < 10 ^ prec then dec_fix (Dec s r ideal_exp) else Inl InvalidOperation
          else Inl InvalidOperation)"

text \<open>\<open>d == 0\<close> for a Decimal \<open>d\<close>: a NaN and an infinity compare unequal.\<close>

definition dec_eq0 :: "decimal \<Rightarrow> bool" where
  "dec_eq0 d = (case d of Dec s c e \<Rightarrow> c = 0 | _ \<Rightarrow> False)"

text \<open>\<open>int(d)\<close>: truncation towards zero.\<close>

definition dec_int :: "decimal \<Rightarrow> exn + int" where
  "dec_int d = (case d of
     Dec s c e \<Rightarrow>
       Inr ((if s then - 1 else 1) *
            (if 0 \<le> e then int c * 10 ^ nat e else int (c div 10 ^ nat (- e))))
   | DecInf s \<Rightarrow> Inl OverflowError
   | _ \<Rightarrow> Inl ValueError)"

subsection \<open>Conversion to binary64\<close>

fun bitlen :: "nat \<Rightarrow> nat" where
  "bitlen n = (if n = 0 then 0 else Suc (bitlen (n div 2)))"

declare bitlen.simps [simp del]

text \<open>The integer nearest to \<open>p / q\<close>, a tie going to the even one.\<close>

definition round_half_even :: "nat \<Rightarrow> nat \<Rightarrow> nat" where
  "round_half_even p q =
     (let m = p div q; r = p mod q
      in if q < 2 * r \<or> (2 * r = q \<and> odd m) then m + 1 else m)"

text \<open>
  The binary64 number nearest to \<open>(-1)^s * p / q\<close> (\<open>q > 0\<close>), as \<open>float(str)\<close> computes it:
  correctly rounded, an overflow giving an infinity.
\<close>

definition float_of_ratio :: "bool \<Rightarrow> nat \<Rightarrow> nat \<Rightarrow> pyfloat" where
  "float_of_ratio s p q =
     (if p = 0 then Finite s 0 (- 1074)
      else
        let e0 = int (bitlen p) - int (bitlen q);
            below = (if 0 \<le> e0 then p < q * 2 ^ nat e0 else p * 2 ^ nat (- e0) < q);
            e = (if below then e0 - 1 else e0);
            x = max (e - 52) (- 1074);
            m = (if 0 \<le> x then round_half_even p (q * 2 ^ nat x)
                 else round_half_even (p * 2 ^ nat (- x)) q);
            m' = (if m = 2 ^ 53 then 2 ^ 52 else m);
            x' = (if m = 2 ^ 53 then x + 1 else x)
        in if 971 < x' then Infinity s else Finite s m' x')"

text \<open>\<open>float(d)\<close>.\<close>

definition dec_float :: "decimal \<Rightarrow> exn + pyfloat" where
  "dec_float d = (case d of
     Dec s c e \<Rightarrow>
       Inr (if 0 \<le> e then float_of_ratio s (c * 10 ^ nat e) 1
            else float_of_ratio s c (10 ^ nat (- e)))
   | DecInf s \<Rightarrow> Inr (Infinity s)
   | DecNaN s \<Rightarrow> Inr (NaN s)
   | DecSNaN s \<Rightarrow> Inl ValueError)"

section \<open>Timestamps\<close>

text \<open>
  The proleptic Gregorian calendar of the \<open>datetime\<close> module, with its tables
  (index 0 unused) and the years 1 to 9999.
\<close>

definition MINYEAR :: int where "MINYEAR = 1"
definition MAXYEAR :: int where "MAXYEAR = 9999"
definition MAXORDINAL :: int where "MAXORDINAL = 3652059"

definition is_leap :: "int \<Rightarrow> bool" where
  "is_leap y = (y mod 4 = 0 \<and> (y mod 100 \<noteq> 0 \<or> y mod 400 = 0))"

definition DAYS_IN_MONTH :: "int list" where
  "DAYS_IN_MONTH = [0, 31, 28, 31, 30, 31, 30, 31, 31, 30, 31, 30, 31]"

definition DAYS_BEFORE_MONTH :: "int list" where
  "DAYS_BEFORE_MONTH = [0, 0, 31, 59, 90, 120, 151, 181, 212, 243, 273, 304, 334]"

definition days_in_month :: "int \<Rightarrow> int \<Rightarrow> int" where
  "days_in_month y m = (if m = 2 \<and> is_leap y then 29 else DAYS_IN_MONTH ! nat m)"

definition days_before_month :: "int \<Rightarrow> int \<Rightarrow> int" where
  "days_before_month y m = DAYS_BEFORE_MONTH ! nat m + (if 2 < m \<and> is_leap y then 1 else 0)"

definition days_before_year :: "int \<Rightarrow> int" where
  "days_before_year y = (y - 1) * 365 + (y - 1) div 4 - (y - 1) div 100 + (y - 1) div 400"

definition ymd_to_ord :: "int \<Rightarrow> int \<Rightarrow> int \<Rightarrow> int" where
  "ymd_to_ord y m d = days_before_year y + days_before_month y m + d"

definition ord_to_ymd :: "int \<Rightarrow> int \<times> int \<times> int" where
  "ord_to_ymd ordinal =
     (let n0 = ordinal - 1;
          n400 = n0 div 146097; na = n0 mod 146097;
          n100 = na div 36524; nb = na mod 36524;
          n4 = nb div 1461; nc = nb mod 1461;
          n1 = nc div 365; n = nc mod 365;
          y = n400 * 400 + 1 + n100 * 100 + n4 * 4 + n1
      in if n1 = 4 \<or> n100 = 4 then (y - 1, 12, 31)
         else
           let leapyear = (n1 = 3 \<and> (n4 \<noteq> 24 \<or> n100 = 3));
               m0 = (n + 50) div 32;
               preceding0 = DAYS_BEFORE_MONTH ! nat m0 + (if 2 < m0 \<and> leapyear then 1 else 0);
               m = (if n < preceding0 then m0 - 1 else m0);
               preceding = (if n < preceding0 then preceding0 - days_in_month y m else preceding0)
           in (y, m, n - preceding + 1))"

text \<open>\<open>normalize_pair\<close>: carry the part of \<open>lo\<close> outside \<open>[0, factor)\<close> into \<open>hi\<close>.\<close>

definition normalize_pair :: "int \<Rightarrow> int \<Rightarrow> int \<Rightarrow> int \<times> int" where
  "normalize_pair hi lo factor =
     (if lo < 0 \<or> factor \<le> lo then (hi + lo div factor, lo mod factor) else (hi, lo))"

text \<open>
  \<open>normalize_date\<close>: bring the day back into its month. A result outside the years
  1 to 9999 raises OverflowError.
\<close>

definition normalize_date :: "int \<Rightarrow> int \<Rightarrow> int \<Rightarrow> exn + int \<times> int \<times> int" where
  "normalize_date y m d =
     (let dim = days_in_month y m in
      if d < 1 \<or> dim < d then
        if d = 0 then
          (let r = (if 0 < m - 1 then (y, m - 1, days_in_month y (m - 1)) else (y - 1, 12, 31))
           in if MINYEAR \<le> fst r \<and> fst r \<le> MAXYEAR then Inr r else Inl OverflowError)
        else if d = dim + 1 then
          (let r = (if 12 < m + 1 then (y + 1, 1, 1) else (y, m + 1, 1))
           in if MINYEAR \<le> fst r \<and> fst r \<le> MAXYEAR then Inr r else Inl OverflowError)
        else
          (let ordinal = ymd_to_ord y m 1 + d - 1 in
           if ordinal < 1 \<or> MAXORDINAL < ordinal then Inl OverflowError
           else Inr (ord_to_ymd ordinal))
      else if MINYEAR \<le> y \<and> y \<le> MAXYEAR then Inr (y, m, d) else Inl OverflowError)"

text \<open>The constructor checks of \<open>datetime(...)\<close>: a field out of range raises ValueError.\<close>

definition new_datetime ::
  "int \<Rightarrow> int \<Rightarrow> int \<Rightarrow> int \<Rightarrow> int \<Rightarrow> int \<Rightarrow> int \<Rightarrow> int option \<Rightarrow> exn + datetime" where
  "new_datetime y m d hh mm ss us tz =
     (if y < MINYEAR \<or> MAXYEAR < y then Inl ValueError
      else if m < 1 \<or> 12 < m then Inl ValueError
      else if d < 1 \<or> days_in_month y m < d then Inl ValueError
      else if hh < 0 \<or> 23 < hh then Inl ValueError
      else if mm < 0 \<or> 59 < mm then Inl ValueError
      else if ss < 0 \<or> 59 < ss then Inl ValueError
      else if us < 0 \<or> 999999 < us then Inl ValueError
      else Inr \<lparr>year = nat y, month = nat m, day = nat d, hour = nat hh, minute = nat mm,
                second = nat ss, microsecond = nat us, utcoffset = tz\<rparr>)"

text \<open>
  \<open>add_datetime_timedelta\<close>: the timestamp plus (\<open>factor = 1\<close>) or minus (\<open>factor = -1\<close>) a
  \<open>timedelta\<close> of \<open>delta\<close> microseconds, which Python keeps as days, seconds in
  \<open>[0, 86400)\<close> and microseconds in \<open>[0, 10^6)\<close>. The tzinfo is kept.
\<close>

definition add_datetime_timedelta :: "datetime \<Rightarrow> int \<Rightarrow> int \<Rightarrow> exn + datetime" where
  "add_datetime_timedelta t delta factor =
     (let td_days = delta div 86400000000;
          td_seconds = (delta mod 86400000000) div 1000000;
          td_microseconds = delta mod 1000000;
          d0 = int (day t) + td_days * factor;
          s0 = int (second t) + td_seconds * factor;
          u0 = int (microsecond t) + td_microseconds * factor;
          (s1, us) = normalize_pair s0 u0 1000000;
          (m1, ss) = normalize_pair (int (minute t)) s1 60;
          (h1, mm) = normalize_pair (int (hour t)) m1 60;
          (d1, hh) = normalize_pair d0 h1 24
      in case normalize_date (int (year t)) (int (month t)) d1 of
           Inl e \<Rightarrow> Inl e
         | Inr (y, m, d) \<Rightarrow> new_datetime y m d hh mm ss us (utcoffset t))"

text \<open>
  \<open>value.astimezone(UTC)\<close>: subtract the timestamp's own offset, attach UTC, and let
  \<open>UTC.fromutc\<close> add UTC's offset of zero. A naive timestamp is taken as local time: its
  offset is asked of the system, here the parameter \<open>lt\<close>.
\<close>

definition astimezone_utc :: "(datetime \<Rightarrow> exn + int) \<Rightarrow> datetime \<Rightarrow> exn + datetime" where
  "astimezone_utc lt t =
     (case (case utcoffset t of Some off \<Rightarrow> Inr off | None \<Rightarrow> lt t) of
        Inl e \<Rightarrow> Inl e
      | Inr off \<Rightarrow>
          (case add_datetime_timedelta t off (- 1) of
             Inl e \<Rightarrow> Inl e
           | Inr r \<Rightarrow> add_datetime_timedelta (r\<lparr>utcoffset := Some 0\<rparr>) 0 1))"

subsection \<open>ISO 8601 text\<close>

definition date_isoformat :: "'a date_scheme \<Rightarrow> string" where
  "date_isoformat d = zero_pad 4 (year d) @ ''-'' @ zero_pad 2 (month d) @ ''-'' @ zero_pad 2 (day d)"

definition format_time :: "nat \<Rightarrow> nat \<Rightarrow> nat \<Rightarrow> nat \<Rightarrow> string" where
  "format_time hh mm ss us =
     zero_pad 2 hh @ '':'' @ zero_pad 2 mm @ '':'' @ zero_pad 2 ss @
     (if us = 0 then [] else ''.'' @ zero_pad 6 us)"

definition format_offset :: "int option \<Rightarrow> string" where
  "format_offset off = (case off of
     None \<Rightarrow> []
   | Some d \<Rightarrow>
       let a = nat \<bar>d\<bar>;
           hh = a div 3600000000;
           mm = (a mod 3600000000) div 60000000;
           ss = (a mod 60000000) div 1000000;
           us = a mod 1000000
       in (if d < 0 then ''-'' else ''+'') @ zero_pad 2 hh @ '':'' @ zero_pad 2 mm @
          (if ss \<noteq> 0 \<or> us \<noteq> 0
           then '':'' @ zero_pad 2 ss @ (if us \<noteq> 0 then ''.'' @ zero_pad 6 us else [])
           else []))"

definition isoformat :: "datetime \<Rightarrow> string" where
  "isoformat t =
     date_isoformat t @ ''T'' @ format_time (hour t) (minute t) (second t) (microsecond t) @
     format_offset (utcoffset t)"

section \<open>The value normalizer\<close>

fun json_safe :: "(datetime \<Rightarrow> exn + int) \<Rightarrow> pyval \<Rightarrow> exn + pyval"
  and json_safe_items ::
    "(datetime \<Rightarrow> exn + int) \<Rightarrow> (string \<times> pyval) list \<Rightarrow> exn + (string \<times> pyval) list"
  and json_safe_list :: "(datetime \<Rightarrow> exn + int) \<Rightarrow> pyval list \<Rightarrow> exn + pyval list"
where
  "json_safe lt (VDict kvs) =
     (case json_safe_items lt kvs of Inl e \<Rightarrow> Inl e | Inr kvs' \<Rightarrow> Inr (VDict kvs'))"
| "json_safe lt (VList xs) =
     (case json_safe_list lt xs of Inl e \<Rightarrow> Inl e | Inr xs' \<Rightarrow> Inr (VList xs'))"
| "json_safe lt (VDatetime t) =
     (case astimezone_utc lt t of
        Inl e \<Rightarrow> Inl e
      | Inr u \<Rightarrow> Inr (VStr (replace ''+00:00'' ''Z'' (isoformat u))))"
| "json_safe lt (VDate d) = Inr (VStr (date_isoformat d))"
| "json_safe lt (VDecimal d) =
     (case dec_mod1 d of
        Inl e \<Rightarrow> Inl e
      | Inr r \<Rightarrow>
          if dec_eq0 r then (case dec_int d of Inl e \<Rightarrow> Inl e | Inr n \<Rightarrow> Inr (VInt n))
          else (case dec_float d of Inl e \<Rightarrow> Inl e | Inr f \<Rightarrow> Inr (VFloat f)))"
| "json_safe lt VNone = Inr VNone"
| "json_safe lt (VBool b) = Inr (VBool b)"
| "json_safe lt (VInt n) = Inr (VInt n)"
| "json_safe lt (VFloat f) = Inr (VFloat f)"
| "json_safe lt (VStr s) = Inr (VStr s)"
| "json_safe_items lt [] = Inr []"
| "json_safe_items lt (kv # kvs) =
     (case json_safe lt (snd kv) of
        Inl e \<Rightarrow> Inl e
      | Inr v' \<Rightarrow>
          (case json_safe_items lt kvs of
             Inl e \<Rightarrow> Inl e
           | Inr kvs' \<Rightarrow> Inr ((fst kv, v') # kvs')))"
| "json_safe_list lt [] = Inr []"
| "json_safe_list lt (x # xs) =
     (case json_safe lt x of
        Inl e \<Rightarrow> Inl e
      | Inr x' \<Rightarrow>
          (case json_safe_list lt xs of Inl e \<Rightarrow> Inl e | Inr xs' \<Rightarrow> Inr (x' # xs')))"

section \<open>Notions the properties are stated with\<close>

text \<open>A system whose local time zone is UTC, for concrete runs.\<close>

definition utc_local :: "datetime \<Rightarrow> exn + int" where
  "utc_local t = Inr 0"

text \<open>The rational number a finite Decimal and a finite float stand for.\<close>

definition dec_value :: "decimal \<Rightarrow> rat" where
  "dec_value d = (case d of
     Dec s c e \<Rightarrow>
       (if s then - 1 else 1) *
       (if 0 \<le> e then of_nat (c * 10 ^ nat e) else of_nat c / 10 ^ nat (- e))
   | _ \<Rightarrow> 0)"

definition float_value :: "pyfloat \<Rightarrow> rat" where
  "float_value f = (case f of
     Finite s m x \<Rightarrow>
       (if s then - 1 else 1) *
       (if 0 \<le> x then of_nat m * 2 ^ nat x else of_nat m / 2 ^ nat (- x))
   | _ \<Rightarrow> 0)"

text \<open>
  The JSON kinds: null, booleans, integers, floats, strings, and lists and dicts of
  them. Timestamps, dates and Decimals are not among them.
\<close>

fun json_kind :: "pyval \<Rightarrow> bool"
  and json_kind_items :: "(string \<times> pyval) list \<Rightarrow> bool"
  and json_kind_list :: "pyval list \<Rightarrow> bool"
where
  "json_kind (VDict kvs) = json_kind_items kvs"
| "json_kind (VList xs) = json_kind_list xs"
| "json_kind (VDatetime t) = False"
| "json_kind (VDate d) = False"
| "json_kind (VDecimal d) = False"
| "json_kind VNone = True"
| "json_kind (VBool b) = True"
| "json_kind (VInt n) = True"
| "json_kind (VFloat f) = True"
| "json_kind (VStr s) = True"
| "json_kind_items [] = True"
| "json_kind_items (kv # kvs) = (json_kind (snd kv) \<and> json_kind_items kvs)"
| "json_kind_list [] = True"
| "json_kind_list (x # xs) = (json_kind x \<and> json_kind_list xs)"

text \<open>The field ranges every \<open>datetime\<close> object satisfies by construction.\<close>

definition valid_datetime :: "datetime \<Rightarrow> bool" where
  "valid_datetime t =
     (1 \<le> year t \<and> year t \<le> 9999 \<and> 1 \<le> month t \<and> month t \<le> 12 \<and>
      1 \<le> day t \<and> int (day t) \<le> days_in_month (int (year t)) (int (month t)) \<and>
      hour t < 24 \<and> minute t < 60 \<and> second t < 60 \<and> microsecond t < 1000000 \<and>
      (case utcoffset t of None \<Rightarrow> True | Some off \<Rightarrow> \<bar>off\<bar> < 86400000000))"


text \<open>The ISO 8601 text of a UTC timestamp with the designator \<open>Z\<close>.\<close>

definition iso_z :: "datetime \<Rightarrow> string" where
  "iso_z u = date_isoformat u @ ''T'' @
     format_time (hour u) (minute u) (second u) (microsecond u) @ ''Z''"

text \<open>
  Reading such a text back: \<open>YYYY-MM-DDTHH:MM:SS\<close>, an optional \<open>.ffffff\<close>, and \<open>Z\<close>
  for UTC.
\<close>

definition is_digit :: "char \<Rightarrow> bool" where
  "is_digit c = (c \<in> set ''0123456789'')"

definition digit_val :: "char \<Rightarrow> nat" where
  "digit_val c = of_char c - 48"

definition parse_nat :: "string \<Rightarrow> nat option" where
  "parse_nat s =
     (if s \<noteq> [] \<and> list_all is_digit s
      then Some (foldl (\<lambda>a c. 10 * a + digit_val c) 0 s) else None)"

definition fromisoformat_z :: "string \<Rightarrow> datetime option" where
  "fromisoformat_z s =
     (if (length s = 20 \<or> (length s = 27 \<and> s ! 19 = CHR ''.'')) \<and>
         s ! 4 = CHR ''-'' \<and> s ! 7 = CHR ''-'' \<and> s ! 10 = CHR ''T'' \<and>
         s ! 13 = CHR '':'' \<and> s ! 16 = CHR '':'' \<and> last s = CHR ''Z''
      then
        (case (parse_nat (take 4 s), parse_nat (take 2 (drop 5 s)),
               parse_nat (take 2 (drop 8 s)), parse_nat (take 2 (drop 11 s)),
               parse_nat (take 2 (drop 14 s)), parse_nat (take 2 (drop 17 s)),
               if length s = 27 then parse_nat (take 6 (drop 20 s)) else Some 0) of
           (Some y, Some m, Some d, Some hh, Some mm, Some ss, Some us) \<Rightarrow>
             Some \<lparr>year = y, month = m, day = d, hour = hh, minute = mm, second = ss,
                   microsecond = us, utcoffset = Some 0\<rparr>
         | _ \<Rightarrow> None)
      else None)"

(*END-DEFS*)

section \<open>The normalizer returns JSON kinds and leaves them alone\<close>

lemma json_safe_kind:
  "json_safe lt v = Inr w \<Longrightarrow> json_kind w"
  "json_safe_items lt kvs = Inr kvs' \<Longrightarrow> json_kind_items kvs'"
  "json_safe_list lt xs = Inr xs' \<Longrightarrow> json_kind_list xs'"
  by (induction lt v and lt kvs and lt xs arbitrary: w and kvs' and xs'
      rule: json_safe_json_safe_items_json_safe_list.induct)
    (auto split: sum.splits if_splits)

lemma json_safe_fixed:
  "json_kind v \<Longrightarrow> json_safe lt v = Inr v"
  "json_kind_items kvs \<Longrightarrow> json_safe_items lt kvs = Inr kvs"
  "json_kind_list xs \<Longrightarrow> json_safe_list lt xs = Inr xs"
  by (induction lt v and lt kvs and lt xs
      rule: json_safe_json_safe_items_json_safe_list.induct) auto

text \<open>
  C6. The normalizer is idempotent: whenever normalizing \<open>v\<close> returns \<open>w\<close>, normalizing
  \<open>w\<close> returns \<open>w\<close> unchanged.
\<close>

theorem json_safe_idempotent:
  "json_safe lt v = Inr w \<Longrightarrow> json_safe lt w = Inr w"
  by (rule json_safe_fixed(1)) (rule json_safe_kind(1))

lemma zero_pad_ex: "zero_pad 4 2024 = ''2024''" "zero_pad 2 2 = ''02''" "zero_pad 2 5 = ''05''"
  by (simp_all add: zero_pad_def dec_digits.simps digit_char_def)

lemma dec_mod1_16: "dec_mod1 (Dec False 160 (- 1)) = Inr (Dec False 0 (- 1))"
  by (simp add: dec_mod1_def dec_fix_def ndigits.simps Let_def prec_def Etiny_def Emin_def Emax_def)

theorem json_safe_idempotent_witness:
  "json_safe utc_local
     (VDict [(''MemoryGiB'', VDecimal (Dec False 160 (- 1))),
             (''Dates'', VList [VDate \<lparr>year = 2024, month = 2, day = 5\<rparr>])]) =
   Inr (VDict [(''MemoryGiB'', VInt 16), (''Dates'', VList [VStr ''2024-02-05''])]) \<and>
   json_safe utc_local (VDict [(''MemoryGiB'', VInt 16), (''Dates'', VList [VStr ''2024-02-05''])]) =
   Inr (VDict [(''MemoryGiB'', VInt 16), (''Dates'', VList [VStr ''2024-02-05''])])"
proof -
  have a: "json_safe utc_local
     (VDict [(''MemoryGiB'', VDecimal (Dec False 160 (- 1))),
             (''Dates'', VList [VDate \<lparr>year = 2024, month = 2, day = 5\<rparr>])]) =
   Inr (VDict [(''MemoryGiB'', VInt 16), (''Dates'', VList [VStr ''2024-02-05''])])"
    by (simp add: dec_mod1_16 dec_eq0_def dec_int_def date_isoformat_def zero_pad_ex)
  from a json_safe_idempotent [OF a] show ?thesis by (rule conjI)
qed

text \<open>
  C10. An ordinary float passes through unchanged, as a float: it is never turned into
  an integer, whatever its fractional part.
\<close>

theorem json_safe_float_passthrough:
  "json_safe lt (VFloat f) = Inr (VFloat f) \<and> (\<forall>n. json_safe lt (VFloat f) \<noteq> Inr (VInt n))"
  by simp

section \<open>Decimals\<close>

lemma ndigits_upper: "c < 10 ^ ndigits c"
proof (induction c rule: ndigits.induct)
  case (1 n)
  show ?case
  proof (cases "n < 10")
    case True
    then show ?thesis by (subst ndigits.simps) simp
  next
    case False
    with 1 have "n div 10 < 10 ^ ndigits (n div 10)" by simp
    then have "n < 10 * 10 ^ ndigits (n div 10)" by linarith
    with False show ?thesis by (subst ndigits.simps) simp
  qed
qed

lemma ndigits_pos: "0 < ndigits c"
  by (subst ndigits.simps) simp

lemma ndigits_lower: "0 < c \<Longrightarrow> 10 ^ (ndigits c - 1) \<le> c"
proof (induction c rule: ndigits.induct)
  case (1 n)
  show ?case
  proof (cases "n < 10")
    case True
    with 1(2) show ?thesis by (subst ndigits.simps) simp
  next
    case False
    then have "0 < n div 10" by simp
    with 1(1) False have "10 ^ (ndigits (n div 10) - 1) \<le> n div 10" by simp
    then have "10 * 10 ^ (ndigits (n div 10) - 1) \<le> n" by linarith
    moreover have "ndigits n - 1 = Suc (ndigits (n div 10) - 1)"
      using False ndigits_pos [of "n div 10"] by (subst ndigits.simps) simp
    ultimately show ?thesis by simp
  qed
qed

lemma ndigits_le: "c < 10 ^ k \<Longrightarrow> 0 < k \<Longrightarrow> ndigits c \<le> k"
proof (cases "c = 0")
  case True
  assume "0 < k"
  with True show ?thesis by (subst ndigits.simps) simp
next
  case False
  assume a: "c < 10 ^ k"
  from False have "(10::nat) ^ (ndigits c - 1) \<le> c" using ndigits_lower [of c] by simp
  with a have "(10::nat) ^ (ndigits c - 1) < 10 ^ k" by linarith
  then have "ndigits c - 1 < k" by simp
  then show ?thesis by simp
qed


lemma ratio_in_Ints: "(of_nat c :: rat) / 10 ^ k \<in> \<int> \<longleftrightarrow> c mod 10 ^ k = 0"
proof
  assume "(of_nat c :: rat) / 10 ^ k \<in> \<int>"
  then obtain z :: int where z: "(of_nat c :: rat) / 10 ^ k = of_int z"
    by (auto elim: Ints_cases)
  then have "(of_nat c :: rat) = of_int z * 10 ^ k"
    by (simp add: field_simps)
  then have "(of_int (int c) :: rat) = of_int (z * 10 ^ k)" by simp
  then have "int c = z * 10 ^ k" by (simp only: of_int_eq_iff)
  then have "(10::int) ^ k dvd int c" by simp
  then have "(10::nat) ^ k dvd c"
    by (metis int_dvd_int_iff of_nat_numeral of_nat_power)
  then show "c mod 10 ^ k = 0" by auto
next
  assume "c mod 10 ^ k = 0"
  then have "c = 10 ^ k * (c div 10 ^ k)" by auto
  then have "(of_nat c :: rat) = of_nat (10 ^ k * (c div 10 ^ k))" by simp
  then have "(of_nat c :: rat) / 10 ^ k = of_nat (c div 10 ^ k)" by simp
  then show "(of_nat c :: rat) / 10 ^ k \<in> \<int>" by simp
qed

lemma ratio_exact: "c mod 10 ^ k = 0 \<Longrightarrow> (of_nat c :: rat) / 10 ^ k = of_nat (c div 10 ^ k)"
proof -
  assume "c mod 10 ^ k = 0"
  then have "c = 10 ^ k * (c div 10 ^ k)" by auto
  then have "(of_nat c :: rat) = of_nat (10 ^ k * (c div 10 ^ k))" by simp
  then show ?thesis by simp
qed

lemma dec_fix_zero: "\<exists>e'. dec_fix (Dec s 0 e) = Inr (Dec s 0 e')"
  by (simp add: dec_fix_def)

lemma dec_fix_nonzero:
  assumes c: "c \<noteq> 0" and e: "Etiny \<le> e" and small: "int (ndigits c) + e \<le> 0"
  shows "\<exists>c' e'. dec_fix (Dec s c e) = Inr (Dec s c' e') \<and> c' \<noteq> 0"
proof -
  define exp_min0 where "exp_min0 = int (ndigits c) + e - int prec"
  have top: "\<not> exp_min0 > Etop" "\<not> exp_min0 + 1 > Etop"
    using small by (simp_all add: exp_min0_def Etop_def Emax_def prec_def)
  show ?thesis
  proof (cases "e < exp_min0")
    case False
    have "dec_fix (Dec s c e) = Inr (Dec s c e)"
      using c top False e by (simp add: dec_fix_def Let_def exp_min0_def)
    then show ?thesis using c by simp
  next
    case True
    define k where "k = nat (exp_min0 - e)"
    have nd: "ndigits c = k + 28" using True by (simp add: k_def exp_min0_def prec_def)
    have "10 ^ (ndigits c - 1) \<le> c" using c ndigits_lower [of c] by simp
    then have lo: "10 ^ 27 * 10 ^ k \<le> c" by (simp add: nd power_add mult.commute)
    have "10 ^ 27 * 10 ^ k div 10 ^ k \<le> c div (10 ^ k)" using lo by (rule div_le_mono)
    then have c0: "10 ^ 27 \<le> c div 10 ^ k" by simp
    define coeff0 where "coeff0 = c div 10 ^ k"
    define up where "up = (2 * (c mod 10 ^ k) > 10 ^ k \<or> (2 * (c mod 10 ^ k) = 10 ^ k \<and> odd coeff0))"
    define coeff1 where "coeff1 = (if up then coeff0 + 1 else coeff0)"
    define carry where "carry = (up \<and> ndigits coeff1 > prec)"
    have c1: "10 ^ 27 \<le> coeff1" using c0 by (simp add: coeff1_def coeff0_def)
    have "coeff1 div 10 \<noteq> 0" using c1 by simp
    moreover have "coeff1 \<noteq> 0" using c1 by simp
    moreover have "dec_fix (Dec s c e) =
        Inr (Dec s (if carry then coeff1 div 10 else coeff1) (if carry then exp_min0 + 1 else exp_min0))"
    proof -
      have a: "\<not> exp_min0 < Etiny" using True e by simp
      have b: "\<not> int (ndigits c) + e - exp_min0 < 0" by (simp add: exp_min0_def)
      show ?thesis
        unfolding dec_fix_def Let_def decimal.case exp_min0_def [symmetric]
        unfolding carry_def coeff1_def up_def coeff0_def k_def
        using c top True a b by simp
    qed
    ultimately show ?thesis by auto
  qed
qed

lemma bound_nonneg:
  assumes "\<bar>dec_value (Dec s c e)\<bar> < 10 ^ 28" and "0 \<le> e"
  shows "c * 10 ^ nat e < 10 ^ 28"
proof -
  have "\<bar>dec_value (Dec s c e)\<bar> = (of_nat (c * 10 ^ nat e) :: rat)"
    using assms(2) by (simp add: dec_value_def abs_mult del: of_nat_mult of_nat_power)
  with assms(1) have "(of_nat (c * 10 ^ nat e) :: rat) < of_nat (10 ^ 28)" by simp
  then show ?thesis by (simp only: of_nat_less_iff)
qed

lemma bound_neg:
  assumes "\<bar>dec_value (Dec s c e)\<bar> < 10 ^ 28" and "e < 0"
  shows "c < 10 ^ 28 * 10 ^ nat (- e)"
proof -
  have "\<bar>dec_value (Dec s c e)\<bar> = (of_nat c :: rat) / 10 ^ nat (- e)"
    using assms(2) by (simp add: dec_value_def abs_mult)
  with assms(1) have "(of_nat c :: rat) / 10 ^ nat (- e) < 10 ^ 28" by simp
  then have "(of_nat c :: rat) < 10 ^ 28 * 10 ^ nat (- e)" by (simp add: pos_divide_less_eq)
  then have "(of_nat c :: rat) < of_nat (10 ^ 28 * 10 ^ nat (- e))" by simp
  then show ?thesis by (simp only: of_nat_less_iff)
qed

lemma dec_mod1_nonneg:
  assumes b: "c * 10 ^ nat e < 10 ^ 28" and e: "0 \<le> e"
  shows "dec_mod1 (Dec s c e) = dec_fix (Dec s 0 0)"
proof (cases "c = 0")
  case True
  then show ?thesis using e by (simp add: dec_mod1_def Let_def)
next
  case False
  then have "10 ^ (ndigits c - 1) \<le> c" using ndigits_lower [of c] by simp
  then have "10 ^ (ndigits c - 1) * 10 ^ nat e \<le> c * 10 ^ nat e" by (rule mult_le_mono1)
  then have "(10::nat) ^ (ndigits c - 1) * 10 ^ nat e < 10 ^ 28" using b by (rule le_less_trans)
  then have "(10::nat) ^ (ndigits c - 1 + nat e) < 10 ^ 28" by (simp only: power_add)
  then have "ndigits c - 1 + nat e < 28" by (rule power_less_imp_less_exp [rotated]) simp
  then have x: "e + int (ndigits c) - 1 \<le> int prec" using e ndigits_pos [of c]
    by (simp add: prec_def)
  have y: "\<not> e + int (ndigits c) - 1 \<le> - 2" using e ndigits_pos [of c] by simp
  show ?thesis using False e x y b by (simp add: dec_mod1_def Let_def prec_def)
qed

lemma dec_mod1_neg:
  assumes b: "c < 10 ^ 28 * 10 ^ nat (- e)" and e: "e < 0"
  shows "dec_mod1 (Dec s c e) = dec_fix (Dec s (c mod 10 ^ nat (- e)) e)"
proof (cases "c = 0 \<or> e + int (ndigits c) - 1 \<le> - 2")
  case True
  have "c mod 10 ^ nat (- e) = c"
  proof (cases "c = 0")
    case False
    with True have "ndigits c \<le> nat (- e)" by simp
    then have "(10::nat) ^ ndigits c \<le> 10 ^ nat (- e)" by simp
    with ndigits_upper [of c] have "c < 10 ^ nat (- e)" by linarith
    then show ?thesis by simp
  qed simp
  then show ?thesis using True e by (simp add: dec_mod1_def Let_def)
next
  case False
  then have c: "c \<noteq> 0" by simp
  then have "10 ^ (ndigits c - 1) \<le> c" using ndigits_lower [of c] by simp
  then have "(10::nat) ^ (ndigits c - 1) < 10 ^ 28 * 10 ^ nat (- e)" using b by (rule le_less_trans)
  then have "(10::nat) ^ (ndigits c - 1) < 10 ^ (28 + nat (- e))" by (simp only: power_add)
  then have "ndigits c - 1 < 28 + nat (- e)" by (rule power_less_imp_less_exp [rotated]) simp
  then have x: "e + int (ndigits c) - 1 \<le> int prec" using e by (simp add: prec_def)
  have q: "c div 10 ^ nat (- e) < 10 ^ 28" using b by (simp add: less_mult_imp_div_less)
  show ?thesis using False e x q by (simp add: dec_mod1_def Let_def prec_def)
qed

lemma value_nonneg_exp:
  "0 \<le> e \<Longrightarrow> dec_value (Dec s c e) = of_int ((if s then - 1 else 1) * (int c * 10 ^ nat e))"
  by (simp add: dec_value_def)

lemma sign_Ints: "(if s then - 1 else 1) * (x::rat) \<in> \<int> \<longleftrightarrow> x \<in> \<int>"
  by (cases s) (auto simp: minus_in_Ints_iff)

lemma dec_float_4_5: "dec_float (Dec False 45 (- 1)) = Inr (Finite False 5066549580791808 (- 50))"
  by (simp add: dec_float_def float_of_ratio_def round_half_even_def bitlen.simps Let_def)

text \<open>
  C4 as stated fails: the Decimal \<open>1E+28\<close> has no fractional part, yet \<open>value % 1\<close> raises
  InvalidOperation in the default context, whose 28 digits cannot hold the integer
  quotient. No integer is returned.
\<close>

theorem json_safe_decimal_counterexample:
  "dec_value (Dec False 1 28) \<in> \<int> \<and>
   json_safe utc_local (VDecimal (Dec False 1 28)) = Inl InvalidOperation"
  by (simp add: dec_value_def dec_mod1_def ndigits.simps prec_def Let_def)

text \<open>
  C4, amended. For a finite Decimal \<open>d\<close> with \<open>|d| < 10^28\<close> and an exponent of at least
  \<open>Etiny = -1000026\<close>: if \<open>d\<close> has no fractional part the normalizer returns the integer
  equal to \<open>d\<close>, and otherwise it returns the float \<open>float(d)\<close>.
\<close>

theorem json_safe_decimal:
  assumes bound: "\<bar>dec_value (Dec s c e)\<bar> < 10 ^ 28" and tiny: "Etiny \<le> e"
  shows "(dec_value (Dec s c e) \<in> \<int> \<longrightarrow>
            json_safe lt (VDecimal (Dec s c e)) = Inr (VInt \<lfloor>dec_value (Dec s c e)\<rfloor>) \<and>
            of_int \<lfloor>dec_value (Dec s c e)\<rfloor> = dec_value (Dec s c e)) \<and>
         (dec_value (Dec s c e) \<notin> \<int> \<longrightarrow>
            (\<exists>f. dec_float (Dec s c e) = Inr f \<and>
                 json_safe lt (VDecimal (Dec s c e)) = Inr (VFloat f)))"
proof (cases "0 \<le> e")
  case True
  have v: "dec_value (Dec s c e) = of_int ((if s then - 1 else 1) * (int c * 10 ^ nat e))"
    using True by (rule value_nonneg_exp)
  have "dec_mod1 (Dec s c e) = dec_fix (Dec s 0 0)"
    using bound_nonneg [OF bound True] True by (rule dec_mod1_nonneg)
  then obtain e' where "dec_mod1 (Dec s c e) = Inr (Dec s 0 e')"
    using dec_fix_zero [of s 0] by auto
  then have "json_safe lt (VDecimal (Dec s c e)) =
      Inr (VInt ((if s then - 1 else 1) * (int c * 10 ^ nat e)))"
    using True by (simp add: dec_eq0_def dec_int_def)
  then show ?thesis unfolding v by (simp only: floor_of_int Ints_of_int) simp
next
  case False
  then have e: "e < 0" by simp
  define k where "k = nat (- e)"
  have v: "dec_value (Dec s c e) = (if s then - 1 else 1) * (of_nat c / 10 ^ k)"
    using e by (simp add: dec_value_def k_def)
  have m: "dec_mod1 (Dec s c e) = dec_fix (Dec s (c mod 10 ^ k) e)"
    unfolding k_def using bound_neg [OF bound e] e by (rule dec_mod1_neg)
  have ints: "dec_value (Dec s c e) \<in> \<int> \<longleftrightarrow> c mod 10 ^ k = 0"
    unfolding v by (simp only: sign_Ints ratio_in_Ints)
  show ?thesis
  proof (cases "c mod 10 ^ k = 0")
    case True
    then obtain e' where "dec_mod1 (Dec s c e) = Inr (Dec s 0 e')"
      using m dec_fix_zero [of s e] by auto
    then have j: "json_safe lt (VDecimal (Dec s c e)) =
        Inr (VInt ((if s then - 1 else 1) * int (c div 10 ^ k)))"
      using e by (simp add: dec_eq0_def dec_int_def k_def)
    have "dec_value (Dec s c e) = of_int ((if s then - 1 else 1) * int (c div 10 ^ k))"
      unfolding v using ratio_exact [OF True] by simp
    then show ?thesis using j ints True by (simp only: floor_of_int Ints_of_int) simp
  next
    case False
    have "c mod 10 ^ k < 10 ^ k" by simp
    moreover have "0 < k" using e by (simp add: k_def)
    ultimately have "ndigits (c mod 10 ^ k) \<le> k" by (rule ndigits_le)
    then have "int (ndigits (c mod 10 ^ k)) + e \<le> 0" using e by (simp add: k_def)
    from dec_fix_nonzero [OF False tiny this, of s]
    obtain c' e' where "dec_mod1 (Dec s c e) = Inr (Dec s c' e')" and "c' \<noteq> 0"
      using m by auto
    then have "json_safe lt (VDecimal (Dec s c e)) =
        (case dec_float (Dec s c e) of Inl x \<Rightarrow> Inl x | Inr f \<Rightarrow> Inr (VFloat f))"
      by (simp add: dec_eq0_def)
    then show ?thesis using ints False by (simp add: dec_float_def)
  qed
qed

theorem json_safe_decimal_witness:
  "\<bar>dec_value (Dec False 45 (- 1))\<bar> < 10 ^ 28 \<and> Etiny \<le> - 1 \<and>
   dec_value (Dec False 45 (- 1)) \<notin> \<int> \<and>
   json_safe utc_local (VDecimal (Dec False 45 (- 1))) = Inr (VFloat (Finite False 5066549580791808 (- 50))) \<and>
   float_value (Finite False 5066549580791808 (- 50)) = 9 / 2 \<and>
   \<bar>dec_value (Dec False 40 (- 1))\<bar> < 10 ^ 28 \<and>
   dec_value (Dec False 40 (- 1)) \<in> \<int> \<and>
   json_safe utc_local (VDecimal (Dec False 40 (- 1))) = Inr (VInt 4)"
proof -
  have b1: "\<bar>dec_value (Dec False 45 (- 1))\<bar> < 10 ^ 28" by (simp add: dec_value_def)
  have b2: "\<bar>dec_value (Dec False 40 (- 1))\<bar> < 10 ^ 28" by (simp add: dec_value_def)
  have t: "Etiny \<le> - 1" by (simp add: Etiny_def Emin_def prec_def)
  have v1: "dec_value (Dec False 45 (- 1)) = 9 / 2" by (simp add: dec_value_def)
  have v2: "dec_value (Dec False 40 (- 1)) = of_int 4" by (simp add: dec_value_def)
  have n1: "dec_value (Dec False 45 (- 1)) \<notin> \<int>"
  proof
    assume "dec_value (Dec False 45 (- 1)) \<in> \<int>"
    then have "(of_nat 45 :: rat) / 10 ^ 1 \<in> \<int>" by (simp add: dec_value_def)
    then have "(45::nat) mod 10 ^ 1 = 0" by (simp only: ratio_in_Ints)
    then show False by simp
  qed
  have n2: "dec_value (Dec False 40 (- 1)) \<in> \<int>" unfolding v2 by (rule Ints_of_int)
  have fl: "\<lfloor>dec_value (Dec False 40 (- 1))\<rfloor> = 4" unfolding v2 by (rule floor_of_int)
  from json_safe_decimal [OF b1 t, of utc_local] n1 dec_float_4_5
  have r1: "json_safe utc_local (VDecimal (Dec False 45 (- 1))) = Inr (VFloat (Finite False 5066549580791808 (- 50)))"
    by auto
  from json_safe_decimal [OF b2 t, of utc_local] n2 fl
  have r2: "json_safe utc_local (VDecimal (Dec False 40 (- 1))) = Inr (VInt 4)"
    by auto
  have fv: "float_value (Finite False 5066549580791808 (- 50)) = 9 / 2"
    by (simp add: float_value_def)
  show ?thesis using b1 b2 t n1 n2 r1 r2 fv by (intro conjI)
qed

section \<open>Timestamps become UTC text\<close>

lemma digit_cases: "d < 10 \<Longrightarrow> d = 0 \<or> d = 1 \<or> d = 2 \<or> d = 3 \<or> d = 4 \<or> d = 5 \<or> d = 6 \<or> d = 7 \<or> d = 8 \<or> d = (9::nat)"
  by arith

lemma digit_char_props:
  assumes "d < 10"
  shows "is_digit (digit_char d)" and "digit_val (digit_char d) = d"
    and "digit_char d \<noteq> CHR ''+''"
  using digit_cases [OF assms]
  by (auto simp: is_digit_def digit_val_def digit_char_def)

lemma length_dec_digits: "length (dec_digits n) = ndigits n"
  by (induction n rule: dec_digits.induct) (subst dec_digits.simps, subst ndigits.simps, simp)

lemma dec_digits_digits: "list_all is_digit (dec_digits n)"
  by (induction n rule: dec_digits.induct) (subst dec_digits.simps, simp add: digit_char_props)

lemma dec_digits_no_plus: "CHR ''+'' \<notin> set (dec_digits n)"
proof
  assume "CHR ''+'' \<in> set (dec_digits n)"
  with dec_digits_digits [of n] have "is_digit (CHR ''+'')" by (simp add: list_all_iff)
  then show False by (simp add: is_digit_def)
qed

lemma foldl_dec_digits: "foldl (\<lambda>a c. 10 * a + digit_val c) 0 (dec_digits n) = n"
  by (induction n rule: dec_digits.induct) (subst dec_digits.simps, simp add: digit_char_props)

lemma foldl_zeros: "foldl (\<lambda>a c. 10 * a + digit_val c) 0 (replicate k (CHR ''0'')) = 0"
  by (induction k) (simp_all add: digit_val_def)


lemma zero_pad_length: "n < 10 ^ w \<Longrightarrow> 0 < w \<Longrightarrow> length (zero_pad w n) = w"
  using ndigits_le [of n w] by (simp add: zero_pad_def length_dec_digits)

lemma zero_pad_no_plus: "CHR ''+'' \<notin> set (zero_pad w n)"
  by (simp add: zero_pad_def dec_digits_no_plus)

lemma dec_digits_nonempty: "dec_digits n \<noteq> []"
  by (subst dec_digits.simps) simp

lemma parse_nat_zero_pad: "parse_nat (zero_pad w n) = Some n"
proof -
  have "is_digit (CHR ''0'')" by (simp add: is_digit_def)
  then have "list_all is_digit (replicate (w - length (dec_digits n)) (CHR ''0''))"
    by (simp add: list_all_iff)
  then have "list_all is_digit (zero_pad w n)"
    by (simp add: zero_pad_def dec_digits_digits)
  moreover have "zero_pad w n \<noteq> []" by (simp add: zero_pad_def dec_digits_nonempty)
  moreover have "foldl (\<lambda>a c. 10 * a + digit_val c) 0 (zero_pad w n) = n"
    by (simp add: zero_pad_def foldl_zeros foldl_dec_digits)
  ultimately show ?thesis by (simp add: parse_nat_def)
qed

lemma replace_plus_free:
  "CHR ''+'' \<notin> set base \<Longrightarrow> replace ''+00:00'' ''Z'' (base @ ''+00:00'') = base @ ''Z''"
  by (induction base) auto

lemma month_cases:
  "1 \<le> m \<Longrightarrow> m \<le> 12 \<Longrightarrow>
   m = 1 \<or> m = 2 \<or> m = 3 \<or> m = 4 \<or> m = 5 \<or> m = 6 \<or> m = 7 \<or> m = 8 \<or> m = 9 \<or> m = 10 \<or> m = 11 \<or> m = (12::int)"
  by arith

lemma days_in_month_bounds:
  assumes "1 \<le> m" "m \<le> 12"
  shows "28 \<le> days_in_month y m" and "days_in_month y m \<le> 31"
  using month_cases [OF assms]
  by (auto simp: days_in_month_def DAYS_IN_MONTH_def)

lemma new_datetime_Inr:
  assumes "new_datetime y m d hh mm ss us tz = Inr u"
  shows "u = \<lparr>year = nat y, month = nat m, day = nat d, hour = nat hh, minute = nat mm,
               second = nat ss, microsecond = nat us, utcoffset = tz\<rparr>"
    and "1 \<le> y" "y \<le> 9999" "1 \<le> m" "m \<le> 12" "1 \<le> d" "d \<le> days_in_month y m"
    and "0 \<le> hh" "hh \<le> 23" "0 \<le> mm" "mm \<le> 59" "0 \<le> ss" "ss \<le> 59"
    and "0 \<le> us" "us \<le> 999999"
  using assms by (auto simp: new_datetime_def MINYEAR_def MAXYEAR_def split: if_splits)

lemma add_datetime_timedelta_Inr:
  assumes "add_datetime_timedelta t delta factor = Inr u"
  shows "1 \<le> year u \<and> year u \<le> 9999 \<and> 1 \<le> month u \<and> month u \<le> 12 \<and>
         1 \<le> day u \<and> int (day u) \<le> days_in_month (int (year u)) (int (month u)) \<and>
         hour u < 24 \<and> minute u < 60 \<and> second u < 60 \<and> microsecond u < 1000000 \<and>
         utcoffset u = utcoffset t"
proof -
  from assms obtain y m d hh mm ss us where
    n: "new_datetime y m d hh mm ss us (utcoffset t) = Inr u"
    by (auto simp: add_datetime_timedelta_def Let_def split: prod.splits sum.splits)
  note f = new_datetime_Inr [OF n]
  show ?thesis unfolding f(1) using f(2-) by (simp, linarith)
qed

lemma astimezone_utc_Inr:
  assumes "astimezone_utc lt t = Inr u"
  shows "valid_datetime u" and "utcoffset u = Some 0"
proof -
  from assms obtain r where "add_datetime_timedelta (r\<lparr>utcoffset := Some 0\<rparr>) 0 1 = Inr u"
    by (auto simp: astimezone_utc_def split: sum.splits)
  from add_datetime_timedelta_Inr [OF this]
  show "valid_datetime u" and "utcoffset u = Some 0"
    by (simp_all add: valid_datetime_def)
qed

lemma isoformat_utc:
  "utcoffset u = Some 0 \<Longrightarrow>
   isoformat u = (date_isoformat u @ ''T'' @
      format_time (hour u) (minute u) (second u) (microsecond u)) @ ''+00:00''"
  by (simp add: isoformat_def format_offset_def zero_pad_def dec_digits.simps digit_char_def)

lemma iso_base_no_plus:
  "CHR ''+'' \<notin> set (date_isoformat u @ ''T'' @
      format_time (hour u) (minute u) (second u) (microsecond u))"
  by (simp add: date_isoformat_def format_time_def zero_pad_no_plus)

lemma json_safe_datetime_text:
  assumes "astimezone_utc lt t = Inr u"
  shows "json_safe lt (VDatetime t) = Inr (VStr (iso_z u))"
proof -
  have "utcoffset u = Some 0" using assms by (rule astimezone_utc_Inr)
  then have "replace ''+00:00'' ''Z'' (isoformat u) = iso_z u"
    unfolding iso_z_def by (simp only: isoformat_utc replace_plus_free [OF iso_base_no_plus]) simp
  then show ?thesis using assms by simp
qed

lemma layout_plain:
  assumes "length a = 4" "length b = 2" "length c = 2" "length d = 2" "length e = 2" "length f = 2"
  shows "fromisoformat_z (a @ ''-'' @ b @ ''-'' @ c @ ''T'' @ d @ '':'' @ e @ '':'' @ f @ ''Z'') =
    (case (parse_nat a, parse_nat b, parse_nat c, parse_nat d, parse_nat e, parse_nat f, Some 0) of
       (Some y, Some m, Some dd, Some hh, Some mm, Some ss, Some us) \<Rightarrow>
         Some \<lparr>year = y, month = m, day = dd, hour = hh, minute = mm, second = ss,
               microsecond = us, utcoffset = Some 0\<rparr>
     | _ \<Rightarrow> None)"
  using assms by (simp add: fromisoformat_z_def nth_append)

lemma layout_fraction:
  assumes "length a = 4" "length b = 2" "length c = 2" "length d = 2" "length e = 2" "length f = 2"
    and "length g = 6"
  shows "fromisoformat_z (a @ ''-'' @ b @ ''-'' @ c @ ''T'' @ d @ '':'' @ e @ '':'' @ f @ ''.'' @ g @ ''Z'') =
    (case (parse_nat a, parse_nat b, parse_nat c, parse_nat d, parse_nat e, parse_nat f, parse_nat g) of
       (Some y, Some m, Some dd, Some hh, Some mm, Some ss, Some us) \<Rightarrow>
         Some \<lparr>year = y, month = m, day = dd, hour = hh, minute = mm, second = ss,
               microsecond = us, utcoffset = Some 0\<rparr>
     | _ \<Rightarrow> None)"
  using assms by (simp add: fromisoformat_z_def nth_append)

lemma fromisoformat_iso_z:
  assumes v: "valid_datetime u" and z: "utcoffset u = Some 0"
  shows "fromisoformat_z (iso_z u) = Some u"
proof -
  have m31: "days_in_month (int (year u)) (int (month u)) \<le> 31"
    using v by (intro days_in_month_bounds) (simp_all add: valid_datetime_def)
  have d: "day u \<le> 31" using v m31 by (simp add: valid_datetime_def)
  have l: "length (zero_pad 4 (year u)) = 4" "length (zero_pad 2 (month u)) = 2"
    "length (zero_pad 2 (day u)) = 2" "length (zero_pad 2 (hour u)) = 2"
    "length (zero_pad 2 (minute u)) = 2" "length (zero_pad 2 (second u)) = 2"
    "length (zero_pad 6 (microsecond u)) = 6"
    using v d by (simp_all add: valid_datetime_def zero_pad_length)
  have u: "u = \<lparr>year = year u, month = month u, day = day u, hour = hour u, minute = minute u,
      second = second u, microsecond = microsecond u, utcoffset = Some 0\<rparr>"
    using z by simp
  show ?thesis
  proof (cases "microsecond u = 0")
    case True
    have "iso_z u = zero_pad 4 (year u) @ ''-'' @ zero_pad 2 (month u) @ ''-'' @
        zero_pad 2 (day u) @ ''T'' @ zero_pad 2 (hour u) @ '':'' @ zero_pad 2 (minute u) @
        '':'' @ zero_pad 2 (second u) @ ''Z''"
      using True by (simp add: iso_z_def date_isoformat_def format_time_def)
    then have "fromisoformat_z (iso_z u) =
        Some \<lparr>year = year u, month = month u, day = day u, hour = hour u, minute = minute u,
          second = second u, microsecond = 0, utcoffset = Some 0\<rparr>"
      by (simp only: layout_plain [OF l(1-6)] parse_nat_zero_pad) simp
    then show ?thesis using True u by simp
  next
    case False
    have "iso_z u = zero_pad 4 (year u) @ ''-'' @ zero_pad 2 (month u) @ ''-'' @
        zero_pad 2 (day u) @ ''T'' @ zero_pad 2 (hour u) @ '':'' @ zero_pad 2 (minute u) @
        '':'' @ zero_pad 2 (second u) @ ''.'' @ zero_pad 6 (microsecond u) @ ''Z''"
      using False by (simp add: iso_z_def date_isoformat_def format_time_def)
    then have "fromisoformat_z (iso_z u) =
        Some \<lparr>year = year u, month = month u, day = day u, hour = hour u, minute = minute u,
          second = second u, microsecond = microsecond u, utcoffset = Some 0\<rparr>"
      by (simp only: layout_fraction [OF l] parse_nat_zero_pad) simp
    then show ?thesis using u by simp
  qed
qed

lemma iso_z_suffix: "suffix ''Z'' (iso_z u)" "\<not> suffix ''+00:00'' (iso_z u)"
  by (simp_all add: iso_z_def suffix_def)

lemma normalize_pair_eq: "0 < f \<Longrightarrow> normalize_pair hi lo f = (hi + lo div f, lo mod f)"
  by (simp add: normalize_pair_def)

lemma normalize_date_inner:
  assumes m: "1 \<le> m" "m \<le> 12" and y: "2 \<le> y" "y \<le> 9998"
    and d: "0 \<le> d" "d \<le> days_in_month y m + 1"
  shows "\<exists>y' m' d'. normalize_date y m d = Inr (y', m', d') \<and> 1 \<le> y' \<and> y' \<le> 9999 \<and>
           1 \<le> m' \<and> m' \<le> 12 \<and> 1 \<le> d' \<and> d' \<le> days_in_month y' m'"
proof -
  note b = days_in_month_bounds [OF m, of y]
  consider "d = 0" | "d = days_in_month y m + 1" | "1 \<le> d" "d \<le> days_in_month y m"
    using d by linarith
  then show ?thesis
  proof cases
    case 1
    show ?thesis
    proof (cases "0 < m - 1")
      case True
      then have "1 \<le> m - 1" "m - 1 \<le> 12" using m by simp_all
      from days_in_month_bounds [OF this, of y] True 1 y b m show ?thesis
        by (simp add: normalize_date_def Let_def MINYEAR_def MAXYEAR_def)
    next
      case False
      have "days_in_month (y - 1) 12 = 31" by (simp add: days_in_month_def DAYS_IN_MONTH_def)
      with False 1 y b show ?thesis
        by (simp add: normalize_date_def Let_def MINYEAR_def MAXYEAR_def)
    qed
  next
    case 2
    show ?thesis
    proof (cases "12 < m + 1")
      case True
      have "1 \<le> days_in_month (y + 1) 1" by (simp add: days_in_month_def DAYS_IN_MONTH_def)
      with True 2 y b show ?thesis
        by (simp add: normalize_date_def Let_def MINYEAR_def MAXYEAR_def)
    next
      case False
      then have "1 \<le> m + 1" "m + 1 \<le> 12" using m by simp_all
      from days_in_month_bounds [OF this, of y] False 2 y b m show ?thesis
        by (simp add: normalize_date_def Let_def MINYEAR_def MAXYEAR_def)
    qed
  next
    case 3
    with y m show ?thesis
      by (simp add: normalize_date_def Let_def MINYEAR_def MAXYEAR_def)
  qed
qed

lemma add_offset_total:
  assumes v: "valid_datetime t" and off: "\<bar>off\<bar> < 86400000000"
    and y: "2 \<le> year t" "year t \<le> 9998"
  shows "\<exists>r. add_datetime_timedelta t off (- 1) = Inr r"
proof -
  define d0 where "d0 = int (day t) + off div 86400000000 * (- 1)"
  define s0 where "s0 = int (second t) + (off mod 86400000000) div 1000000 * (- 1)"
  define u0 where "u0 = int (microsecond t) + off mod 1000000 * (- 1)"
  define s1 where "s1 = s0 + u0 div 1000000"
  define m1 where "m1 = int (minute t) + s1 div 60"
  define h1 where "h1 = int (hour t) + m1 div 60"
  define d1 where "d1 = d0 + h1 div 24"
  have f: "1 \<le> day t" "int (day t) \<le> days_in_month (int (year t)) (int (month t))"
    "hour t < 24" "minute t < 60" "second t < 60" "microsecond t < 1000000"
    "1 \<le> month t" "month t \<le> 12"
    using v by (simp_all add: valid_datetime_def)
  have "int (day t) \<le> d0" "d0 \<le> int (day t) + 1" using off unfolding d0_def by linarith+
  moreover have "- 86400 < s0" "s0 < 60" using f(5) unfolding s0_def by linarith+
  moreover have "- 1000000 < u0" "u0 < 1000000" using f(6) unfolding u0_def by linarith+
  ultimately have "- 86400 \<le> s1" "s1 \<le> 59" unfolding s1_def by linarith+
  then have "- 1440 \<le> m1" "m1 \<le> 59" using f(4) unfolding m1_def by linarith+
  then have "- 24 \<le> h1" "h1 \<le> 23" using f(3) unfolding h1_def by linarith+
  then have "d0 - 1 \<le> d1" "d1 \<le> d0" unfolding d1_def by linarith+
  with \<open>int (day t) \<le> d0\<close> \<open>d0 \<le> int (day t) + 1\<close> f(1,2)
  have d1: "0 \<le> d1" "d1 \<le> days_in_month (int (year t)) (int (month t)) + 1" by linarith+
  have "1 \<le> int (month t)" "int (month t) \<le> 12" "2 \<le> int (year t)" "int (year t) \<le> 9998"
    using f y by simp_all
  from normalize_date_inner [OF this d1]
  obtain y' m' d' where n: "normalize_date (int (year t)) (int (month t)) d1 = Inr (y', m', d')"
    and r: "1 \<le> y'" "y' \<le> 9999" "1 \<le> m'" "m' \<le> 12" "1 \<le> d'" "d' \<le> days_in_month y' m'"
    by blast
  have "add_datetime_timedelta t off (- 1) =
      new_datetime y' m' d' (h1 mod 24) (m1 mod 60) (s1 mod 60) (u0 mod 1000000) (utcoffset t)"
    using n
    by (simp add: add_datetime_timedelta_def Let_def normalize_pair_eq
        d0_def s0_def u0_def s1_def m1_def h1_def d1_def)
  moreover have "0 \<le> h1 mod 24" "h1 mod 24 \<le> 23" "0 \<le> m1 mod 60" "m1 mod 60 \<le> 59"
    "0 \<le> s1 mod 60" "s1 mod 60 \<le> 59" "0 \<le> u0 mod 1000000" "u0 mod 1000000 \<le> 999999"
    by simp_all
  ultimately show ?thesis using r
    by (simp add: new_datetime_def MINYEAR_def MAXYEAR_def)
qed

lemma add_zero_total:
  assumes "1 \<le> year r" "year r \<le> 9999" "1 \<le> month r" "month r \<le> 12"
    "1 \<le> day r" "int (day r) \<le> days_in_month (int (year r)) (int (month r))"
    "hour r < 24" "minute r < 60" "second r < 60" "microsecond r < 1000000"
  shows "\<exists>u. add_datetime_timedelta r 0 1 = Inr u"
  using assms
  by (simp add: add_datetime_timedelta_def Let_def normalize_pair_def normalize_date_def
      new_datetime_def MINYEAR_def MAXYEAR_def)

lemma astimezone_utc_total:
  assumes v: "valid_datetime t" and a: "utcoffset t = Some off"
    and y: "2 \<le> year t" "year t \<le> 9998"
  shows "\<exists>u. astimezone_utc lt t = Inr u"
proof -
  have "\<bar>off\<bar> < 86400000000" using v a by (simp add: valid_datetime_def)
  from add_offset_total [OF v this y] obtain r where r: "add_datetime_timedelta t off (- 1) = Inr r"
    by blast
  from add_datetime_timedelta_Inr [OF r]
  have "\<exists>u. add_datetime_timedelta (r\<lparr>utcoffset := Some 0\<rparr>) 0 1 = Inr u"
    by (intro add_zero_total) simp_all
  then show ?thesis using a r by (simp add: astimezone_utc_def)
qed

end
